theory Spec2Isabelle
  imports Main
begin

section \<open>Data holders\<close>

text \<open>
  The classes of the library become records. Offsets are JavaScript numbers that hold
  integers; they are modelled as \<open>int\<close>, since \<open>replace\<close> computes with differences
  of them. A string is a list of code units, and \<open>length\<close> is the source's \<open>.length\<close>.
  The field \<open>end\<close> of a selection is written \<open>end'\<close>. Several classes have a field
  \<open>textContent\<close> or \<open>offset\<close>; the record of a match item keeps the plain name and the
  other records prefix theirs.
\<close>

record TextSelection =
  start :: int
  end' :: int

record MatchItem = TextSelection +
  textContent :: string

record SubMatchItem =
  sub_offset :: int
  sub_textContent :: string

record LineMatchItem = MatchItem +
  subMatchItems :: "SubMatchItem list"

record PartialTextContent =
  block_offset :: int
  block_textContent :: string

record ReplaceResult =
  result_textContent :: string
  cursorPosition :: int

datatype error = IllegalArgumentException

section \<open>The host: regular expressions, the escaper and the line reader\<close>

text \<open>
  The regular-expression engine, \<open>StringUtils.escapeRegularExpress\<close> and
  \<open>TextLineReader\<close> are libraries the program calls. They are parameters of the model.

  A compiled pattern is a matcher: \<open>matcher s i\<close> is \<open>Some n\<close> when the pattern matches
  \<open>s\<close> at position \<open>i\<close> exactly, consuming \<open>n\<close> code units, and \<open>None\<close> otherwise; a
  match never ends before it starts. A \<open>RegExp\<close> object carries the matcher with the
  mutable property \<open>lastIndex\<close>. \<open>getTextLineByTextSelection\<close> stands for the call
  followed by \<open>.textContent\<close>, the text of the line without its terminator.
\<close>

type_synonym matcher = "string \<Rightarrow> nat \<Rightarrow> nat option"

record RegExp =
  source :: string
  flags :: string
  lastIndex :: nat
  matcher :: matcher

record Match =
  index :: nat
  matched :: string

record Host =
  escapeRegularExpress :: "string \<Rightarrow> string"
  compile :: "string \<Rightarrow> string \<Rightarrow> matcher option"
  getLineTextSelections :: "string \<Rightarrow> TextSelection list"
  getTextLineByTextSelection :: "string \<Rightarrow> TextSelection \<Rightarrow> string"

text \<open>
  \<open>new RegExp(pattern, flags)\<close>: the constructor throws a SyntaxError on a malformed
  pattern, which is \<open>compile\<close> answering \<open>None\<close>.
\<close>

definition newRegExp :: "Host \<Rightarrow> string \<Rightarrow> string \<Rightarrow> RegExp option" where
  "newRegExp h pattern fl =
     (case compile h pattern fl of
        None \<Rightarrow> None
      | Some m \<Rightarrow> Some \<lparr>source = pattern, flags = fl, lastIndex = 0, matcher = m\<rparr>)"

text \<open>
  \<open>regex.exec(text)\<close> for a pattern with the global flag (every pattern of the program
  has it): the search starts at \<open>lastIndex\<close> and tries each position up to the end of
  the text. A match sets \<open>lastIndex\<close> to the end of the match; a failure sets it to 0.
  \<open>search_from m s i k\<close> tries the \<open>k\<close> positions from \<open>i\<close> on.
\<close>

fun search_from :: "matcher \<Rightarrow> string \<Rightarrow> nat \<Rightarrow> nat \<Rightarrow> (nat \<times> nat) option" where
  "search_from m s i 0 = None"
| "search_from m s i (Suc k) =
     (case m s i of
        Some n \<Rightarrow> Some (i, n)
      | None \<Rightarrow> search_from m s (Suc i) k)"

definition exec :: "RegExp \<Rightarrow> string \<Rightarrow> Match option \<times> RegExp" where
  "exec regex s =
     (if length s < lastIndex regex then (None, regex\<lparr>lastIndex := 0\<rparr>)
      else
        (case search_from (matcher regex) s (lastIndex regex) (Suc (length s) - lastIndex regex) of
           None \<Rightarrow> (None, regex\<lparr>lastIndex := 0\<rparr>)
         | Some (i, n) \<Rightarrow>
             (Some \<lparr>index = i, matched = take n (drop i s)\<rparr>, regex\<lparr>lastIndex := i + n\<rparr>)))"

text \<open>\<open>String.prototype.substring\<close>: both bounds are clamped to the string and swapped
  when they come in the wrong order.\<close>

definition substring :: "string \<Rightarrow> int \<Rightarrow> int \<Rightarrow> string" where
  "substring s a b =
     (let n = int (length s);
          a' = max 0 (min a n);
          b' = max 0 (min b n);
          lo = min a' b';
          hi = max a' b'
      in take (nat (hi - lo)) (drop (nat lo) s))"

section \<open>Pattern builder: buildFindTextRegex\<close>

definition backslash :: char where
  "backslash = CHR 0x5C"

definition word_boundary :: string where
  "word_boundary = [backslash, CHR ''b'']"

definition buildFindTextRegex :: "Host \<Rightarrow> string \<Rightarrow> bool \<Rightarrow> bool \<Rightarrow> bool \<Rightarrow> RegExp option" where
  "buildFindTextRegex h keyword isCaseSensitive isWholeWord isRegularExpression =
     (let pattern =
            (if \<not> isRegularExpression then
               (let pattern = escapeRegularExpress h keyword
                in if isWholeWord then word_boundary @ pattern @ word_boundary else pattern)
             else keyword);
          fl = (if \<not> isCaseSensitive then ''gm'' @ ''i'' else ''gm'')
      in newRegExp h pattern fl)"

definition buildFindLineTextRegex :: "Host \<Rightarrow> string \<Rightarrow> bool \<Rightarrow> bool \<Rightarrow> RegExp option" where
  "buildFindLineTextRegex h keyword isCaseSensitive isWholeWord =
     (let pattern = escapeRegularExpress h keyword;
          pattern = (if isWholeWord then word_boundary @ pattern @ word_boundary else pattern);
          fl = (if \<not> isCaseSensitive then ''g'' @ ''i'' else ''g'')
      in newRegExp h pattern fl)"

section \<open>Scanner: find\<close>

text \<open>
  A loop of the source ends in one of two ways: the function returns from inside the
  loop (\<open>Return\<close>), or control reaches the statement after the loop (\<open>Next\<close>, on the
  loop's condition or on \<open>break\<close>).
\<close>

datatype ('r, 's) flow = Return 'r | Next 's

text \<open>
  The \<open>while (match !== null)\<close> loop of \<open>find\<close>. Its state is the pattern object, the
  current match, \<open>lastPosition\<close> and the items collected so far.
\<close>

function find_while ::
  "RegExp \<Rightarrow> string \<Rightarrow> int \<Rightarrow> int \<Rightarrow> Match option \<Rightarrow> int \<Rightarrow> MatchItem list
     \<Rightarrow> (MatchItem list, RegExp \<times> MatchItem list) flow" where
  "find_while regex textContent' offset maxMatchLimit match lastPosition matchItems =
     (case match of
        None \<Rightarrow> Next (regex, matchItems)
      | Some m \<Rightarrow>
          if lastPosition = int (index m) then Return []
          else
            (let matchTextContent = matched m;
                 matchTextLength = int (length matchTextContent);
                 matchWholePositionStart = int (index m) + offset;
                 matchWholePositionEnd = matchWholePositionStart + matchTextLength;
                 matchItem = \<lparr>start = matchWholePositionStart, end' = matchWholePositionEnd,
                              textContent = matchTextContent\<rparr>;
                 matchItems = matchItems @ [matchItem]
             in if maxMatchLimit > 0 \<and> int (length matchItems) \<ge> maxMatchLimit
                then Next (regex, matchItems)
                else
                  (case exec regex textContent' of
                     (match', regex') \<Rightarrow>
                       find_while regex' textContent' offset maxMatchLimit match'
                         (int (index m)) matchItems)))"
  by pat_completeness auto

text \<open>The \<open>for\<close> loop over the blocks, and \<open>find\<close> itself.\<close>

fun find_for :: "RegExp \<Rightarrow> int \<Rightarrow> PartialTextContent list \<Rightarrow> MatchItem list \<Rightarrow> MatchItem list" where
  "find_for regex maxMatchLimit [] matchItems = matchItems"
| "find_for regex maxMatchLimit (partialTextContent # rest) matchItems =
     (if maxMatchLimit > 0 \<and> int (length matchItems) \<ge> maxMatchLimit then matchItems
      else
        (let regex = regex\<lparr>lastIndex := 0\<rparr>;
             offset = block_offset partialTextContent;
             textContent' = block_textContent partialTextContent
         in case exec regex textContent' of
              (match, regex) \<Rightarrow>
                (case find_while regex textContent' offset maxMatchLimit match (- 1) matchItems of
                   Return r \<Rightarrow> r
                 | Next (regex, matchItems) \<Rightarrow> find_for regex maxMatchLimit rest matchItems)))"

definition find ::
  "Host \<Rightarrow> PartialTextContent list \<Rightarrow> string \<Rightarrow> bool \<Rightarrow> bool \<Rightarrow> bool \<Rightarrow> int
     \<Rightarrow> error + MatchItem list" where
  "find h partialTextContents keyword isCaseSensitive isWholeWord isRegularExpression maxMatchLimit =
     (if keyword = [] then Inl IllegalArgumentException
      else
        (case buildFindTextRegex h keyword isCaseSensitive isWholeWord isRegularExpression of
           None \<Rightarrow> Inr []
         | Some regex \<Rightarrow> Inr (find_for regex maxMatchLimit partialTextContents [])))"

section \<open>Multi-keyword matcher and exclusion check\<close>

text \<open>
  \<open>exec\<close> changes the \<open>lastIndex\<close> of a pattern object, and every scan starts by setting
  it to 0. What a scan leaves in the object is never read, so the loops over the
  patterns and over the lines pass the pattern objects on as they were given.
\<close>

function fmk_while ::
  "RegExp \<Rightarrow> string \<Rightarrow> int \<Rightarrow> int \<Rightarrow> Match option \<Rightarrow> int \<Rightarrow> SubMatchItem list
     \<Rightarrow> (SubMatchItem list, RegExp \<times> SubMatchItem list) flow" where
  "fmk_while regex textContent' extraOffset maxMatchLimit match lastPosition subMatchItems' =
     (case match of
        None \<Rightarrow> Next (regex, subMatchItems')
      | Some m \<Rightarrow>
          if lastPosition = int (index m) then Return []
          else
            (let matchOffset = int (index m) + extraOffset;
                 matchTextContent = matched m;
                 subMatchItem = \<lparr>sub_offset = matchOffset, sub_textContent = matchTextContent\<rparr>;
                 subMatchItems' = subMatchItems' @ [subMatchItem]
             in if maxMatchLimit > 0 \<and> int (length subMatchItems') \<ge> maxMatchLimit
                then Next (regex, subMatchItems')
                else
                  (case exec regex textContent' of
                     (match', regex') \<Rightarrow>
                       fmk_while regex' textContent' extraOffset maxMatchLimit match'
                         (int (index m)) subMatchItems')))"
  by pat_completeness auto

fun fmk_for ::
  "RegExp list \<Rightarrow> string \<Rightarrow> int \<Rightarrow> int \<Rightarrow> SubMatchItem list
     \<Rightarrow> (SubMatchItem list, SubMatchItem list) flow" where
  "fmk_for [] textContent' extraOffset maxMatchLimit subMatchItems' = Next subMatchItems'"
| "fmk_for (regex # rest) textContent' extraOffset maxMatchLimit subMatchItems' =
     (case exec (regex\<lparr>lastIndex := 0\<rparr>) textContent' of
        (match, regex) \<Rightarrow>
          if match = None then Return []
          else
            (case fmk_while regex textContent' extraOffset maxMatchLimit match (- 1) subMatchItems' of
               Return r \<Rightarrow> Return r
             | Next (regex, subMatchItems') \<Rightarrow>
                 fmk_for rest textContent' extraOffset maxMatchLimit subMatchItems'))"

text \<open>The final \<open>sort\<close> orders by offset and is stable, as \<open>sort_key\<close> is.\<close>

definition findMultipleKeywords :: "string \<Rightarrow> RegExp list \<Rightarrow> int \<Rightarrow> int \<Rightarrow> SubMatchItem list" where
  "findMultipleKeywords textContent' includeRegexies extraOffset maxMatchLimit =
     (case fmk_for includeRegexies textContent' extraOffset maxMatchLimit [] of
        Return r \<Rightarrow> r
      | Next subMatchItems' \<Rightarrow> sort_key sub_offset subMatchItems')"

fun isAllKeywordsExcluded :: "string \<Rightarrow> RegExp list \<Rightarrow> bool" where
  "isAllKeywordsExcluded textContent' [] = True"
| "isAllKeywordsExcluded textContent' (regex # rest) =
     (case exec (regex\<lparr>lastIndex := 0\<rparr>) textContent' of
        (Some m, regex) \<Rightarrow> False
      | (None, regex) \<Rightarrow> isAllKeywordsExcluded textContent' rest)"

section \<open>Line scanner: findLines\<close>

text \<open>
  The inner \<open>for\<close> loop over the lines of one block. \<open>continue\<close> and the end of the body
  go on with the next line; \<open>break\<close> leaves the loop with the items collected.
\<close>

fun findLines_lines ::
  "Host \<Rightarrow> PartialTextContent \<Rightarrow> string list \<Rightarrow> RegExp list \<Rightarrow> RegExp list \<Rightarrow> int
     \<Rightarrow> TextSelection list \<Rightarrow> LineMatchItem list \<Rightarrow> LineMatchItem list" where
  "findLines_lines h partialTextContent includeKeywords includeRegexies excludeRegexies
     maxMatchLimit [] lineMatchItems = lineMatchItems"
| "findLines_lines h partialTextContent includeKeywords includeRegexies excludeRegexies
     maxMatchLimit (lineTextSelection # rest) lineMatchItems =
     (let lineTextContent =
            getTextLineByTextSelection h (block_textContent partialTextContent) lineTextSelection;
          lineWholePositionStart = block_offset partialTextContent + start lineTextSelection;
          lineWholePositionEnd = block_offset partialTextContent + end' lineTextSelection
      in if lineTextContent = [] then
           findLines_lines h partialTextContent includeKeywords includeRegexies excludeRegexies
             maxMatchLimit rest lineMatchItems
         else
           (let subMatchItems' = findMultipleKeywords lineTextContent includeRegexies
                  lineWholePositionStart maxMatchLimit;
                isAllKeywordsExcludes = isAllKeywordsExcluded lineTextContent excludeRegexies
            in if isAllKeywordsExcludes \<and> (length includeKeywords = 0 \<or> length subMatchItems' > 0)
               then
                 (let lineMatchItem = \<lparr>start = lineWholePositionStart, end' = lineWholePositionEnd,
                        textContent = lineTextContent, subMatchItems = subMatchItems'\<rparr>;
                      lineMatchItems = lineMatchItems @ [lineMatchItem]
                  in if maxMatchLimit > 0 \<and> int (length lineMatchItems) \<ge> maxMatchLimit
                     then lineMatchItems
                     else findLines_lines h partialTextContent includeKeywords includeRegexies
                            excludeRegexies maxMatchLimit rest lineMatchItems)
               else findLines_lines h partialTextContent includeKeywords includeRegexies
                      excludeRegexies maxMatchLimit rest lineMatchItems))"

fun findLines_for ::
  "Host \<Rightarrow> string list \<Rightarrow> RegExp list \<Rightarrow> RegExp list \<Rightarrow> int
     \<Rightarrow> PartialTextContent list \<Rightarrow> LineMatchItem list \<Rightarrow> LineMatchItem list" where
  "findLines_for h includeKeywords includeRegexies excludeRegexies maxMatchLimit []
     lineMatchItems = lineMatchItems"
| "findLines_for h includeKeywords includeRegexies excludeRegexies maxMatchLimit
     (partialTextContent # rest) lineMatchItems =
     (if maxMatchLimit > 0 \<and> int (length lineMatchItems) \<ge> maxMatchLimit then lineMatchItems
      else
        (let lineTextSelections = getLineTextSelections h (block_textContent partialTextContent)
         in findLines_for h includeKeywords includeRegexies excludeRegexies maxMatchLimit rest
              (findLines_lines h partialTextContent includeKeywords includeRegexies
                 excludeRegexies maxMatchLimit lineTextSelections lineMatchItems)))"

text \<open>\<open>map\<close> followed by \<open>filter (item !== undefined)\<close> keeps the patterns that compiled.\<close>

definition compileAll :: "Host \<Rightarrow> string list \<Rightarrow> bool \<Rightarrow> bool \<Rightarrow> RegExp list" where
  "compileAll h keywords isCaseSensitive isWholeWord =
     List.map_filter (\<lambda>keyword. buildFindLineTextRegex h keyword isCaseSensitive isWholeWord)
       keywords"

definition findLines ::
  "Host \<Rightarrow> PartialTextContent list \<Rightarrow> string list \<Rightarrow> string list \<Rightarrow> bool \<Rightarrow> bool \<Rightarrow> int
     \<Rightarrow> error + LineMatchItem list" where
  "findLines h partialTextContents includeKeywords excludeKeywords isCaseSensitive isWholeWord
     maxMatchLimit =
     (if length includeKeywords = 0 \<and> length excludeKeywords = 0
      then Inl IllegalArgumentException
      else
        (let includeRegexies = compileAll h includeKeywords isCaseSensitive isWholeWord;
             excludeRegexies = compileAll h excludeKeywords isCaseSensitive isWholeWord
         in if length includeRegexies = 0 \<and> length excludeRegexies = 0 then Inr []
            else Inr (findLines_for h includeKeywords includeRegexies excludeRegexies
                        maxMatchLimit partialTextContents [])))"

section \<open>Replacer: replace\<close>

text \<open>The \<open>for\<close> loop of \<open>replace\<close>: its state is \<open>currentOffset\<close>, \<open>positionAfter\<close> and
  \<open>stringBuffer\<close>.\<close>

fun replace_for ::
  "string \<Rightarrow> string \<Rightarrow> int \<Rightarrow> MatchItem list \<Rightarrow> int \<Rightarrow> int \<Rightarrow> string list
     \<Rightarrow> int \<times> int \<times> string list" where
  "replace_for textContent' replaceText cursorPosition' [] currentOffset positionAfter stringBuffer =
     (currentOffset, positionAfter, stringBuffer)"
| "replace_for textContent' replaceText cursorPosition' (matchItem # rest) currentOffset
     positionAfter stringBuffer =
     (let matchTextLength = end' matchItem - start matchItem;
          stringBuffer =
            (if start matchItem \<noteq> currentOffset
             then stringBuffer @ [substring textContent' currentOffset (start matchItem)]
             else stringBuffer);
          currentOffset =
            (if start matchItem \<noteq> currentOffset then start matchItem else currentOffset);
          stringBuffer = stringBuffer @ [replaceText];
          positionAfter =
            (if currentOffset < cursorPosition'
             then positionAfter + (int (length replaceText) - matchTextLength)
             else positionAfter);
          currentOffset = currentOffset + matchTextLength
      in replace_for textContent' replaceText cursorPosition' rest currentOffset positionAfter
           stringBuffer)"

definition replace :: "string \<Rightarrow> string \<Rightarrow> MatchItem list \<Rightarrow> int \<Rightarrow> ReplaceResult" where
  "replace textContent' replaceText matchItems cursorPosition' =
     (case replace_for textContent' replaceText cursorPosition' matchItems 0 cursorPosition' [] of
        (currentOffset, positionAfter, stringBuffer) \<Rightarrow>
          (let stringBuffer =
                 (if currentOffset \<noteq> int (length textContent')
                  then stringBuffer @ [substring textContent' currentOffset (int (length textContent'))]
                  else stringBuffer);
               replacedTextContent = concat stringBuffer
           in \<lparr>result_textContent = replacedTextContent, cursorPosition = positionAfter\<rparr>))"

section \<open>A small host for concrete runs\<close>

text \<open>
  The theorems below hold for every host. Concrete runs need one: \<open>small_host\<close>
  implements a fragment of the pattern language (literal characters, escaped
  punctuation, \<open>.\<close>, the word boundary, and \<open>*\<close> after a character or \<open>.\<close>) with the
  engine's leftmost, greedy, backtracking semantics; any other pattern is reported as a
  syntax error. Its escaper puts a backslash before each special character, and its
  line reader splits at line feeds, a line's range taking its line feed in.
\<close>

datatype atom = Lit char | AnyChar | WordBoundary

datatype token = TAtom atom | TStar

datatype piece = One atom | Star atom

definition is_word_char :: "char \<Rightarrow> bool" where
  "is_word_char c =
     (c \<in> set ''abcdefghijklmnopqrstuvwxyzABCDEFGHIJKLMNOPQRSTUVWXYZ0123456789_'')"

definition special_chars :: string where
  "special_chars = backslash # ''.*+?^${}()|[]''"

definition lower :: "char \<Rightarrow> char" where
  "lower c =
     (case map_of (zip ''ABCDEFGHIJKLMNOPQRSTUVWXYZ'' ''abcdefghijklmnopqrstuvwxyz'') c of
        None \<Rightarrow> c
      | Some d \<Rightarrow> d)"

definition escaped_atom :: "char \<Rightarrow> atom option" where
  "escaped_atom d =
     (if d = CHR ''b'' then Some WordBoundary
      else if is_word_char d then None
      else Some (Lit d))"

fun lex_pattern :: "string \<Rightarrow> token list option" where
  "lex_pattern [] = Some []"
| "lex_pattern (c # cs) =
     (if c = backslash then
        (case cs of
           [] \<Rightarrow> None
         | d # ds \<Rightarrow>
             (case escaped_atom d of
                None \<Rightarrow> None
              | Some a \<Rightarrow> map_option ((#) (TAtom a)) (lex_pattern ds)))
      else if c = CHR ''*'' then map_option ((#) TStar) (lex_pattern cs)
      else if c = CHR ''.'' then map_option ((#) (TAtom AnyChar)) (lex_pattern cs)
      else if c \<in> set special_chars then None
      else map_option ((#) (TAtom (Lit c))) (lex_pattern cs))"

fun group_pieces :: "token list \<Rightarrow> piece list option" where
  "group_pieces [] = Some []"
| "group_pieces (TStar # ts) = None"
| "group_pieces (TAtom a # TStar # ts) =
     (if a = WordBoundary then None else map_option ((#) (Star a)) (group_pieces ts))"
| "group_pieces (TAtom a # ts) = map_option ((#) (One a)) (group_pieces ts)"

definition parse_pattern :: "string \<Rightarrow> piece list option" where
  "parse_pattern pattern =
     (case lex_pattern pattern of None \<Rightarrow> None | Some ts \<Rightarrow> group_pieces ts)"

text \<open>\<open>atom_end ci a s i\<close>: where the atom ends when it matches at \<open>i\<close> (\<open>ci\<close>: ignore case).\<close>

fun atom_end :: "bool \<Rightarrow> atom \<Rightarrow> string \<Rightarrow> nat \<Rightarrow> nat option" where
  "atom_end ci (Lit c) s i =
     (if i < length s \<and> (if ci then lower (s ! i) = lower c else s ! i = c)
      then Some (Suc i) else None)"
| "atom_end ci AnyChar s i =
     (if i < length s \<and> s ! i \<noteq> CHR 0x0A \<and> s ! i \<noteq> CHR 0x0D then Some (Suc i) else None)"
| "atom_end ci WordBoundary s i =
     (let word_before = (0 < i \<and> i \<le> length s \<and> is_word_char (s ! (i - 1)));
          word_after = (i < length s \<and> is_word_char (s ! i))
      in if word_before \<noteq> word_after then Some i else None)"

text \<open>The positions a starred atom can stop at, from \<open>i\<close>, shortest first.\<close>

fun star_stops :: "bool \<Rightarrow> atom \<Rightarrow> string \<Rightarrow> nat \<Rightarrow> nat \<Rightarrow> nat list" where
  "star_stops ci a s i 0 = [i]"
| "star_stops ci a s i (Suc k) =
     (case atom_end ci a s i of
        None \<Rightarrow> [i]
      | Some j \<Rightarrow> i # star_stops ci a s j k)"

text \<open>Every end of a match of the pieces at \<open>i\<close>, in the order backtracking finds them:
  a star tries its longest run first.\<close>

fun piece_ends :: "bool \<Rightarrow> piece list \<Rightarrow> string \<Rightarrow> nat \<Rightarrow> nat list" where
  "piece_ends ci [] s i = [i]"
| "piece_ends ci (One a # ps) s i =
     (case atom_end ci a s i of
        None \<Rightarrow> []
      | Some j \<Rightarrow> piece_ends ci ps s j)"
| "piece_ends ci (Star a # ps) s i =
     concat (map (piece_ends ci ps s) (rev (star_stops ci a s i (length s - i))))"

definition small_matcher :: "bool \<Rightarrow> piece list \<Rightarrow> matcher" where
  "small_matcher ci ps s i =
     (case piece_ends ci ps s i of
        [] \<Rightarrow> None
      | e # es \<Rightarrow> Some (e - i))"

definition small_compile :: "string \<Rightarrow> string \<Rightarrow> matcher option" where
  "small_compile pattern fl =
     map_option (small_matcher (CHR ''i'' \<in> set fl)) (parse_pattern pattern)"

definition small_escape :: "string \<Rightarrow> string" where
  "small_escape s = concat (map (\<lambda>c. if c \<in> set special_chars then [backslash, c] else [c]) s)"

fun small_lines :: "int \<Rightarrow> int \<Rightarrow> string \<Rightarrow> TextSelection list" where
  "small_lines b i [] = (if b = i then [] else [\<lparr>start = b, end' = i\<rparr>])"
| "small_lines b i (c # cs) =
     (if c = CHR 0x0A then \<lparr>start = b, end' = i + 1\<rparr> # small_lines (i + 1) (i + 1) cs
      else small_lines b (i + 1) cs)"

definition small_line_text :: "string \<Rightarrow> TextSelection \<Rightarrow> string" where
  "small_line_text s sel =
     takeWhile (\<lambda>c. c \<noteq> CHR 0x0A) (substring s (start sel) (end' sel))"

definition small_host :: Host where
  "small_host =
     \<lparr>escapeRegularExpress = small_escape,
      compile = small_compile,
      getLineTextSelections = small_lines 0 0,
      getTextLineByTextSelection = small_line_text\<rparr>"

definition block :: "int \<Rightarrow> string \<Rightarrow> PartialTextContent" where
  "block off s = \<lparr>block_offset = off, block_textContent = s\<rparr>"

section \<open>Vocabulary of the statements\<close>

text \<open>
  \<open>ordered_matches lo hi ms\<close>: the match items lie within \<open>lo\<close> and \<open>hi\<close>, come in
  ascending order of \<open>start\<close>, do not overlap (each starts at or after the end of the one
  before) and none ends before it starts.
\<close>

fun ordered_matches :: "int \<Rightarrow> int \<Rightarrow> MatchItem list \<Rightarrow> bool" where
  "ordered_matches lo hi [] = (lo \<le> hi)"
| "ordered_matches lo hi (m # ms) =
     (lo \<le> start m \<and> start m \<le> end' m \<and> ordered_matches (end' m) hi ms)"

text \<open>What one match adds to the cursor position: the growth of the text at a match that
  starts before the cursor, nothing at a match that starts at or after it.\<close>

definition cursor_shift :: "string \<Rightarrow> int \<Rightarrow> MatchItem \<Rightarrow> int" where
  "cursor_shift replaceText c m =
     (if start m < c then int (length replaceText) - (end' m - start m) else 0)"

text \<open>The match cap: a positive \<open>maxMatchLimit\<close> keeps the first items, any other value
  keeps all.\<close>

definition match_cap :: "int \<Rightarrow> 'a list \<Rightarrow> 'a list" where
  "match_cap lim xs = (if lim > 0 then take (nat lim) xs else xs)"

text \<open>A pattern occurs in a text when a scan from position 0 finds a match.\<close>

definition occurs :: "RegExp \<Rightarrow> string \<Rightarrow> bool" where
  "occurs regex s = (fst (exec (regex\<lparr>lastIndex := 0\<rparr>) s) \<noteq> None)"

text \<open>
  The condition of claim C5 on a line of a block, in the claim's words: the text of the
  line is not empty, no exclude pattern occurs in it, and either no include keyword
  was requested or \<open>findMultipleKeywords\<close> finds sub-matches in it.
\<close>

definition line_qualifies ::
  "Host \<Rightarrow> string list \<Rightarrow> RegExp list \<Rightarrow> RegExp list \<Rightarrow> int \<Rightarrow> PartialTextContent
     \<Rightarrow> TextSelection \<Rightarrow> bool" where
  "line_qualifies h includeKeywords includeRegexies excludeRegexies lim p sel =
     (let t = getTextLineByTextSelection h (block_textContent p) sel
      in t \<noteq> []
         \<and> list_all (\<lambda>regex. \<not> occurs regex t) excludeRegexies
         \<and> (includeKeywords = []
              \<or> findMultipleKeywords t includeRegexies (block_offset p + start sel) lim \<noteq> []))"

text \<open>The Line Match Item of a line: its bounds in the document, its text and its
  sub-matches.\<close>

definition line_item ::
  "Host \<Rightarrow> RegExp list \<Rightarrow> int \<Rightarrow> PartialTextContent \<Rightarrow> TextSelection \<Rightarrow> LineMatchItem" where
  "line_item h includeRegexies lim p sel =
     (let t = getTextLineByTextSelection h (block_textContent p) sel
      in \<lparr>start = block_offset p + start sel, end' = block_offset p + end' sel,
          textContent = t,
          subMatchItems = findMultipleKeywords t includeRegexies (block_offset p + start sel) lim\<rparr>)"

definition qualifying_lines ::
  "Host \<Rightarrow> string list \<Rightarrow> RegExp list \<Rightarrow> RegExp list \<Rightarrow> int \<Rightarrow> PartialTextContent list
     \<Rightarrow> LineMatchItem list" where
  "qualifying_lines h includeKeywords includeRegexies excludeRegexies lim blocks =
     concat (map (\<lambda>p. map (line_item h includeRegexies lim p)
                          (filter (line_qualifies h includeKeywords includeRegexies excludeRegexies lim p)
                             (getLineTextSelections h (block_textContent p))))
               blocks)"

text \<open>The items the scan loops build from a match.\<close>

definition match_item :: "int \<Rightarrow> Match \<Rightarrow> MatchItem" where
  "match_item offset m =
     \<lparr>start = int (index m) + offset,
      end' = int (index m) + offset + int (length (matched m)),
      textContent = matched m\<rparr>"

definition sub_match_item :: "int \<Rightarrow> Match \<Rightarrow> SubMatchItem" where
  "sub_match_item extraOffset m =
     \<lparr>sub_offset = int (index m) + extraOffset, sub_textContent = matched m\<rparr>"

text \<open>A host whose escaper leaves the keyword as it is: with it a keyword can fail to
  compile in line mode too.\<close>

definition raw_host :: Host where
  "raw_host = small_host\<lparr>escapeRegularExpress := (\<lambda>s. s)\<rparr>"




text \<open>
  The advances of a pattern over a text, as a scan makes them: advance 0 is the first
  \<open>exec\<close> after \<open>lastIndex\<close> is reset, advance \<open>k + 1\<close> is the \<open>exec\<close> that follows advance
  \<open>k\<close>. \<open>same_start_twice regex s k\<close>: all advances up to number \<open>k + 1\<close> find a match,
  and the matches of the advances \<open>k\<close> and \<open>k + 1\<close> start at the same index.
\<close>

fun advance :: "RegExp \<Rightarrow> string \<Rightarrow> nat \<Rightarrow> Match option \<times> RegExp" where
  "advance regex s 0 = exec (regex\<lparr>lastIndex := 0\<rparr>) s"
| "advance regex s (Suc k) = exec (snd (advance regex s k)) s"

definition same_start_twice :: "RegExp \<Rightarrow> string \<Rightarrow> nat \<Rightarrow> bool" where
  "same_start_twice regex s k =
     (list_all (\<lambda>j. fst (advance regex s j) \<noteq> None) [0..<k]
      \<and> (case fst (advance regex s k) of
            None \<Rightarrow> False
          | Some m \<Rightarrow>
              (case fst (advance regex s (Suc k)) of
                 None \<Rightarrow> False
               | Some m' \<Rightarrow> index m' = index m)))"

text \<open>The pattern of a word boundary followed by any characters, as the small host
  compiles it: it matches the empty string at the end of a text that ends in a word.\<close>

definition boundary_any :: RegExp where
  "boundary_any =
     \<lparr>source = word_boundary @ ''.*'', flags = ''gm'', lastIndex = 0,
      matcher = small_matcher False [One WordBoundary, Star AnyChar]\<rparr>"

section \<open>Termination of the scan loops\<close>

lemma search_from_Some:
  "search_from m s i k = Some (j, n) \<Longrightarrow> i \<le> j \<and> j < i + k \<and> m s j = Some n"
proof (induction k arbitrary: i)
  case 0
  then show ?case by simp
next
  case (Suc k)
  show ?case
  proof (cases "m s i")
    case None
    with Suc.prems have "search_from m s (Suc i) k = Some (j, n)" by simp
    from Suc.IH [OF this] show ?thesis by simp
  next
    case (Some a)
    with Suc.prems show ?thesis by simp
  qed
qed

lemma exec_Some:
  assumes "exec regex s = (Some mt, regex')"
  shows "\<exists>n. matcher regex s (index mt) = Some n
           \<and> regex' = regex\<lparr>lastIndex := index mt + n\<rparr>
           \<and> matched mt = take n (drop (index mt) s)
           \<and> lastIndex regex \<le> index mt \<and> index mt \<le> length s"
proof -
  from assms have le: "lastIndex regex \<le> length s"
    by (auto simp: exec_def split: if_splits)
  from assms le obtain i n where
    sf: "search_from (matcher regex) s (lastIndex regex) (Suc (length s) - lastIndex regex)
           = Some (i, n)"
    and mt: "mt = \<lparr>index = i, matched = take n (drop i s)\<rparr>"
    and r: "regex' = regex\<lparr>lastIndex := i + n\<rparr>"
    by (auto simp: exec_def split: option.splits)
  from search_from_Some [OF sf] le mt r show ?thesis by auto
qed

lemma exec_None: "exec regex s = (None, regex') \<Longrightarrow> regex' = regex\<lparr>lastIndex := 0\<rparr>"
  by (auto simp: exec_def split: if_splits option.splits)

lemma exec_Some_bounds:
  "(Some mt, regex') = exec regex s \<Longrightarrow>
     lastIndex regex \<le> index mt \<and> index mt \<le> length s \<and> index mt \<le> lastIndex regex'"
  using exec_Some [of regex s mt regex'] by auto

text \<open>
  Each turn of the loop either moves \<open>lastIndex\<close> forward, or leaves it in place after an
  empty match; in that case the next match starts at the same index and the guard
  returns. The measure counts the positions left and, within one position, how far the
  state is from the guard.
\<close>

lemma find_while_terminates: "All find_while_dom"
  apply (rule "find_while.termination" [of "measure (\<lambda>(regex, s, offset, lim, match, lastPosition, items).
          case match of
            None \<Rightarrow> 0
          | Some m \<Rightarrow> 1 + 3 * (Suc (length s) - lastIndex regex)
              + (if lastPosition = int (index m) then 0
                 else if index m = lastIndex regex then 1 else 2))"])
   apply simp
  apply (auto dest!: exec_Some_bounds split: if_splits option.splits)
  done

termination find_while
  by (rule find_while_terminates)

lemma fmk_while_terminates: "All fmk_while_dom"
  apply (rule "fmk_while.termination" [of "measure (\<lambda>(regex, s, offset, lim, match, lastPosition, items).
          case match of
            None \<Rightarrow> 0
          | Some m \<Rightarrow> 1 + 3 * (Suc (length s) - lastIndex regex)
              + (if lastPosition = int (index m) then 0
                 else if index m = lastIndex regex then 1 else 2))"])
   apply simp
  apply (auto dest!: exec_Some_bounds split: if_splits option.splits)
  done

termination fmk_while
  by (rule fmk_while_terminates)

declare find_while.simps [simp del] fmk_while.simps [simp del]

section \<open>The scan loops, one turn at a time\<close>

lemma find_while_None: "find_while regex s off lim None lp items = Next (regex, items)"
  by (subst find_while.simps) simp

lemma find_while_guard: "find_while regex s off lim (Some m) (int (index m)) items = Return []"
  by (subst find_while.simps) simp

lemma find_while_full:
  "lp \<noteq> int (index m) \<Longrightarrow> lim > 0 \<and> int (length items) + 1 \<ge> lim \<Longrightarrow>
     find_while regex s off lim (Some m) lp items = Next (regex, items @ [match_item off m])"
  by (subst find_while.simps) (auto simp: Let_def match_item_def)

lemma find_while_step:
  "lp \<noteq> int (index m) \<Longrightarrow> \<not> (lim > 0 \<and> int (length items) + 1 \<ge> lim) \<Longrightarrow>
     exec regex s = (match', regex') \<Longrightarrow>
     find_while regex s off lim (Some m) lp items
       = find_while regex' s off lim match' (int (index m)) (items @ [match_item off m])"
  by (subst find_while.simps) (auto simp: Let_def match_item_def)

lemma find_while_induct [case_names None Guard Full Step]:
  assumes "\<And>regex lp items. P regex None lp items"
    and "\<And>regex m lp items. lp = int (index m) \<Longrightarrow> P regex (Some m) lp items"
    and "\<And>regex m lp items. lp \<noteq> int (index m) \<Longrightarrow> lim > 0 \<and> int (length items) + 1 \<ge> lim
           \<Longrightarrow> P regex (Some m) lp items"
    and "\<And>regex m lp items match' regex'.
           lp \<noteq> int (index m) \<Longrightarrow> \<not> (lim > 0 \<and> int (length items) + 1 \<ge> lim) \<Longrightarrow>
           exec regex s = (match', regex') \<Longrightarrow>
           P regex' match' (int (index m)) (items @ [match_item off m]) \<Longrightarrow>
           P regex (Some m) lp items"
  shows "P regex match lp items"
  using assms
proof (induction regex s off lim match lp items rule: find_while.induct)
  case (1 regex s off lim match lp items)
  note rules = "1.prems"
  show ?case
  proof (cases match)
    case None
    then show ?thesis using rules(1) by simp
  next
    case (Some m)
    show ?thesis
    proof (cases "lp = int (index m)")
      case True
      then show ?thesis using rules(2) Some by simp
    next
      case ne: False
      show ?thesis
      proof (cases "lim > 0 \<and> int (length items) + 1 \<ge> lim")
        case True
        from rules(3) [OF ne True] Some show ?thesis by simp
      next
        case False
        obtain match' regex' where ex: "exec regex s = (match', regex')"
          by (cases "exec regex s") auto
        have nf: "\<not> (0 < lim \<and> lim \<le> int (length (items @ [x])))" for x
          using False by auto
        have "P regex' match' (int (index m)) (items @ [match_item off m])"
          using "1.IH" [OF Some ne refl refl refl refl refl refl nf ex [symmetric] rules]
          by (simp add: match_item_def)
        from rules(4) [OF ne False ex this] Some show ?thesis by simp
      qed
    qed
  qed
qed

lemma fmk_while_None: "fmk_while regex s off lim None lp items = Next (regex, items)"
  by (subst fmk_while.simps) simp

lemma fmk_while_guard: "fmk_while regex s off lim (Some m) (int (index m)) items = Return []"
  by (subst fmk_while.simps) simp

lemma fmk_while_full:
  "lp \<noteq> int (index m) \<Longrightarrow> lim > 0 \<and> int (length items) + 1 \<ge> lim \<Longrightarrow>
     fmk_while regex s off lim (Some m) lp items = Next (regex, items @ [sub_match_item off m])"
  by (subst fmk_while.simps) (auto simp: Let_def sub_match_item_def)

lemma fmk_while_step:
  "lp \<noteq> int (index m) \<Longrightarrow> \<not> (lim > 0 \<and> int (length items) + 1 \<ge> lim) \<Longrightarrow>
     exec regex s = (match', regex') \<Longrightarrow>
     fmk_while regex s off lim (Some m) lp items
       = fmk_while regex' s off lim match' (int (index m)) (items @ [sub_match_item off m])"
  by (subst fmk_while.simps) (auto simp: Let_def sub_match_item_def)

lemma fmk_while_induct [case_names None Guard Full Step]:
  assumes "\<And>regex lp items. P regex None lp items"
    and "\<And>regex m lp items. lp = int (index m) \<Longrightarrow> P regex (Some m) lp items"
    and "\<And>regex m lp items. lp \<noteq> int (index m) \<Longrightarrow> lim > 0 \<and> int (length items) + 1 \<ge> lim
           \<Longrightarrow> P regex (Some m) lp items"
    and "\<And>regex m lp items match' regex'.
           lp \<noteq> int (index m) \<Longrightarrow> \<not> (lim > 0 \<and> int (length items) + 1 \<ge> lim) \<Longrightarrow>
           exec regex s = (match', regex') \<Longrightarrow>
           P regex' match' (int (index m)) (items @ [sub_match_item off m]) \<Longrightarrow>
           P regex (Some m) lp items"
  shows "P regex match lp items"
  using assms
proof (induction regex s off lim match lp items rule: fmk_while.induct)
  case (1 regex s off lim match lp items)
  note rules = "1.prems"
  show ?case
  proof (cases match)
    case None
    then show ?thesis using rules(1) by simp
  next
    case (Some m)
    show ?thesis
    proof (cases "lp = int (index m)")
      case True
      then show ?thesis using rules(2) Some by simp
    next
      case ne: False
      show ?thesis
      proof (cases "lim > 0 \<and> int (length items) + 1 \<ge> lim")
        case True
        from rules(3) [OF ne True] Some show ?thesis by simp
      next
        case False
        obtain match' regex' where ex: "exec regex s = (match', regex')"
          by (cases "exec regex s") auto
        have nf: "\<not> (0 < lim \<and> lim \<le> int (length (items @ [x])))" for x
          using False by auto
        have "P regex' match' (int (index m)) (items @ [sub_match_item off m])"
          using "1.IH" [OF Some ne refl refl refl refl nf ex [symmetric] rules]
          by (simp add: sub_match_item_def)
        from rules(4) [OF ne False ex this] Some show ?thesis by simp
      qed
    qed
  qed
qed

section \<open>Claims on the pattern builder\<close>

lemma newRegExp_source: "newRegExp h pattern fl = Some regex \<Longrightarrow> source regex = pattern"
  by (auto simp: newRegExp_def split: option.splits)

text \<open>
  Claim C1 says that with \<open>isRegex = true\<close> and \<open>wholeWord = true\<close> the pattern is still
  wrapped in word-boundary anchors. It is not: the wrapping stands inside the branch for
  \<open>isRegex = false\<close>. The pattern built for the keyword \<open>foo\<close> is \<open>foo\<close>, and \<open>find\<close> matches
  it inside the word \<open>xfoox\<close>.
\<close>

theorem regex_keyword_not_wrapped:
  "map_option source (buildFindTextRegex small_host ''foo'' True True True) = Some ''foo''
   \<and> map_option source (buildFindTextRegex small_host ''foo'' True True True)
       \<noteq> Some (word_boundary @ ''foo'' @ word_boundary)
   \<and> find small_host [block 0 ''xfoox''] ''foo'' True True True 0
       = Inr [\<lparr>start = 1, end' = 4, textContent = ''foo''\<rparr>]"
  by code_simp

text \<open>
  Claim C1, amended: with \<open>isRegex = true\<close> the pattern is the keyword verbatim, whatever
  \<open>wholeWord\<close> is, and \<open>find\<close> returns the same for \<open>wholeWord = true\<close> and
  \<open>wholeWord = false\<close>; word-boundary anchors are put on both sides of the escaped
  keyword only when \<open>isRegex = false\<close> and \<open>wholeWord = true\<close>.
\<close>

theorem buildFindTextRegex_regex_mode:
  "buildFindTextRegex h kw cs ww True = newRegExp h kw (if cs then ''gm'' else ''gmi'')
   \<and> (buildFindTextRegex h kw cs ww True = Some regex \<longrightarrow> source regex = kw)
   \<and> find h blocks kw cs True True lim = find h blocks kw cs False True lim
   \<and> buildFindTextRegex h kw cs True False
       = newRegExp h (word_boundary @ escapeRegularExpress h kw @ word_boundary)
           (if cs then ''gm'' else ''gmi'')
   \<and> buildFindTextRegex h kw cs False False
       = newRegExp h (escapeRegularExpress h kw) (if cs then ''gm'' else ''gmi'')"
proof -
  have verbatim: "buildFindTextRegex h kw cs w True = newRegExp h kw (if cs then ''gm'' else ''gmi'')"
    for w
    by (simp add: buildFindTextRegex_def)
  have src: "buildFindTextRegex h kw cs ww True = Some regex \<longrightarrow> source regex = kw"
    unfolding verbatim by (auto dest: newRegExp_source)
  have same: "find h blocks kw cs True True lim = find h blocks kw cs False True lim"
    by (simp add: find_def verbatim)
  have wrapped: "buildFindTextRegex h kw cs True False
       = newRegExp h (word_boundary @ escapeRegularExpress h kw @ word_boundary)
           (if cs then ''gm'' else ''gmi'')"
    by (simp add: buildFindTextRegex_def)
  have plain: "buildFindTextRegex h kw cs False False
       = newRegExp h (escapeRegularExpress h kw) (if cs then ''gm'' else ''gmi'')"
    by (simp add: buildFindTextRegex_def)
  from verbatim [of ww] src same wrapped plain show ?thesis by blast
qed

theorem buildFindTextRegex_regex_mode_witness:
  "buildFindTextRegex small_host ''fo*'' True True True
     = Some \<lparr>source = ''fo*'', flags = ''gm'', lastIndex = 0,
             matcher = small_matcher False [One (Lit CHR ''f''), Star (Lit CHR ''o'')]\<rparr>
   \<and> source \<lparr>source = ''fo*'', flags = ''gm'', lastIndex = 0,
             matcher = small_matcher False [One (Lit CHR ''f''), Star (Lit CHR ''o'')]\<rparr> = ''fo*''"
proof -
  have b: "buildFindTextRegex small_host ''fo*'' True True True
     = Some \<lparr>source = ''fo*'', flags = ''gm'', lastIndex = 0,
             matcher = small_matcher False [One (Lit CHR ''f''), Star (Lit CHR ''o'')]\<rparr>"
    by (simp add: buildFindTextRegex_def newRegExp_def small_host_def small_compile_def
        parse_pattern_def backslash_def special_chars_def)
  from buildFindTextRegex_regex_mode [of small_host "''fo*''" True True
      "\<lparr>source = ''fo*'', flags = ''gm'', lastIndex = 0,
             matcher = small_matcher False [One (Lit CHR ''f''), Star (Lit CHR ''o'')]\<rparr>"] b
  show ?thesis by simp
qed

section \<open>The line scanner as a filter\<close>

text \<open>A pattern occurs in a text exactly when the engine's matcher succeeds at some
  position of the text, the position after the last character included.\<close>

lemma search_from_None:
  "search_from m s i k = None \<longleftrightarrow> (\<forall>j. i \<le> j \<and> j < i + k \<longrightarrow> m s j = None)"
proof (induction k arbitrary: i)
  case 0
  then show ?case by auto
next
  case (Suc k)
  show ?case
  proof (cases "m s i")
    case None
    have "(\<forall>j. i \<le> j \<and> j < i + Suc k \<longrightarrow> m s j = None)
            \<longleftrightarrow> (\<forall>j. Suc i \<le> j \<and> j < Suc i + k \<longrightarrow> m s j = None)"
    proof (intro iffI allI impI)
      fix j
      assume a: "\<forall>j. i \<le> j \<and> j < i + Suc k \<longrightarrow> m s j = None"
        and b: "Suc i \<le> j \<and> j < Suc i + k"
      from b have "i \<le> j \<and> j < i + Suc k" by arith
      with a show "m s j = None" by blast
    next
      fix j
      assume a: "\<forall>j. Suc i \<le> j \<and> j < Suc i + k \<longrightarrow> m s j = None"
        and b: "i \<le> j \<and> j < i + Suc k"
      show "m s j = None"
      proof (cases "j = i")
        case True
        with None show ?thesis by simp
      next
        case False
        with b have "Suc i \<le> j \<and> j < Suc i + k" by arith
        with a show ?thesis by blast
      qed
    qed
    with None Suc.IH [of "Suc i"] show ?thesis by simp
  next
    case (Some n)
    then show ?thesis by auto
  qed
qed

lemma occurs_iff: "occurs regex s \<longleftrightarrow> (\<exists>i\<le>length s. matcher regex s i \<noteq> None)"
proof -
  have "occurs regex s \<longleftrightarrow> search_from (matcher regex) s 0 (Suc (length s)) \<noteq> None"
    by (auto simp: occurs_def exec_def split: option.splits)
  also have "\<dots> \<longleftrightarrow> (\<exists>i\<le>length s. matcher regex s i \<noteq> None)"
    unfolding search_from_None by (auto simp: less_Suc_eq_le)
  finally show ?thesis .
qed

lemma isAllKeywordsExcluded_iff:
  "isAllKeywordsExcluded t rs = list_all (\<lambda>regex. \<not> occurs regex t) rs"
  by (induction rs) (auto simp: occurs_def split: prod.splits option.splits)

lemma match_cap_idem: "match_cap lim (match_cap lim xs @ ys) = match_cap lim (xs @ ys)"
  by (auto simp: match_cap_def min_def)

lemma findLines_lines_eq:
  "\<not> (lim > 0 \<and> int (length items) \<ge> lim) \<Longrightarrow>
     findLines_lines h p inc incR excR lim sels items
       = match_cap lim (items @ map (line_item h incR lim p)
                                  (filter (line_qualifies h inc incR excR lim p) sels))"
proof (induction sels arbitrary: items)
  case Nil
  then show ?case by (auto simp: match_cap_def)
next
  case (Cons sel sels)
  show ?case
  proof (cases "line_qualifies h inc incR excR lim p sel")
    case False
    then show ?thesis using Cons
      by (auto simp: line_qualifies_def Let_def isAllKeywordsExcluded_iff)
  next
    case True
    let ?item = "line_item h incR lim p sel"
    show ?thesis
    proof (cases "lim > 0 \<and> int (length (items @ [?item])) \<ge> lim")
      case full: True
      with Cons.prems have "nat lim = Suc (length items)" by auto
      with full True show ?thesis
        by (auto simp: line_qualifies_def line_item_def Let_def isAllKeywordsExcluded_iff match_cap_def)
    next
      case False
      from Cons.IH [OF False] True False show ?thesis
        by (auto simp: line_qualifies_def line_item_def Let_def isAllKeywordsExcluded_iff)
    qed
  qed
qed

lemma length_match_cap: "lim > 0 \<Longrightarrow> int (length (match_cap lim xs)) \<le> lim"
  by (auto simp: match_cap_def)

lemma findLines_for_eq:
  "(lim > 0 \<longrightarrow> int (length items) \<le> lim) \<Longrightarrow>
     findLines_for h inc incR excR lim blocks items
       = match_cap lim (items @ qualifying_lines h inc incR excR lim blocks)"
proof (induction blocks arbitrary: items)
  case Nil
  then show ?case by (auto simp: match_cap_def qualifying_lines_def)
next
  case (Cons p blocks)
  show ?case
  proof (cases "lim > 0 \<and> int (length items) \<ge> lim")
    case True
    with Cons.prems show ?thesis by (auto simp: match_cap_def)
  next
    case False
    let ?items2 = "findLines_lines h p inc incR excR lim (getLineTextSelections h (block_textContent p)) items"
    have eq2: "?items2 = match_cap lim (items @ map (line_item h incR lim p)
                 (filter (line_qualifies h inc incR excR lim p) (getLineTextSelections h (block_textContent p))))"
      by (rule findLines_lines_eq [OF False])
    have "lim > 0 \<longrightarrow> int (length ?items2) \<le> lim"
      unfolding eq2 by (simp add: length_match_cap)
    from Cons.IH [OF this] False show ?thesis
      by (auto simp: Let_def match_cap_idem qualifying_lines_def eq2)
  qed
qed




lemma findLines_cases:
  "findLines h blocks inc exc cs ww lim =
     (if inc = [] \<and> exc = [] then Inl IllegalArgumentException
      else if compileAll h inc cs ww = [] \<and> compileAll h exc cs ww = [] then Inr []
      else Inr (match_cap lim (qualifying_lines h inc (compileAll h inc cs ww)
                  (compileAll h exc cs ww) lim blocks)))"
  by (simp add: findLines_def Let_def findLines_for_eq)






lemma findLines_scan:
  assumes "inc \<noteq> [] \<or> compileAll h exc cs ww \<noteq> []"
  shows "findLines h blocks inc exc cs ww lim
       = Inr (match_cap lim (qualifying_lines h inc (compileAll h inc cs ww)
                (compileAll h exc cs ww) lim blocks))"
proof -
  have exc: "compileAll h exc cs ww \<noteq> [] \<Longrightarrow> exc \<noteq> []"
    by (auto simp: compileAll_def)
  have none: "qualifying_lines h inc [] [] lim blocks = []" if "inc \<noteq> []"
    using that
    by (induction blocks)
       (auto simp: qualifying_lines_def line_qualifies_def findMultipleKeywords_def Let_def)
  from assms exc none show ?thesis
    unfolding findLines_cases by (auto simp: match_cap_def)
qed

lemma fmk_while_Return:
  "fmk_while regex s off lim match lp items = Return r \<Longrightarrow> r = []"
proof (induction regex match lp items rule: fmk_while_induct [where s = s and off = off and lim = lim])
  case (None regex lp items)
  then show ?case by (simp add: fmk_while_None)
next
  case (Guard regex m lp items)
  then show ?case by (simp add: fmk_while_guard)
next
  case (Full regex m lp items)
  then show ?case by (simp add: fmk_while_full)
next
  case (Step regex m lp items match' regex')
  then show ?case by (simp add: fmk_while_step)
qed




section \<open>Claims on the line scanner and on errors\<close>











text \<open>
  Claim C10: with no compiled pattern \<open>findMultipleKeywords\<close> returns the empty sequence.
  \<open>findLines\<close> tests the list of include keywords as it was given: a search with exclude
  keywords only returns the non-empty lines in which no exclude pattern occurs, each
  with an empty sequence of sub-matches, while a search whose include keywords were
  given and all failed to compile returns nothing.
\<close>

theorem exclude_only_search:
  "findMultipleKeywords t [] off lim = []
   \<and> (compileAll h exc cs ww \<noteq> [] \<longrightarrow>
        findLines h blocks [] exc cs ww lim
          = Inr (match_cap lim (qualifying_lines h [] [] (compileAll h exc cs ww) lim blocks)))
   \<and> line_qualifies h [] [] excR lim p sel
       = (getTextLineByTextSelection h (block_textContent p) sel \<noteq> []
          \<and> list_all (\<lambda>regex. \<not> occurs regex
                (getTextLineByTextSelection h (block_textContent p) sel)) excR)
   \<and> subMatchItems (line_item h [] lim p sel) = []
   \<and> (inc \<noteq> [] \<longrightarrow> compileAll h inc cs ww = [] \<longrightarrow>
        findLines h blocks inc exc cs ww lim = Inr [])"
proof -
  have empty: "findMultipleKeywords t [] off lim = []" for t off
    by (simp add: findMultipleKeywords_def)
  have no_inc: "compileAll h [] cs ww = []"
    by (simp add: compileAll_def)
  have only: "compileAll h exc cs ww \<noteq> [] \<longrightarrow>
        findLines h blocks [] exc cs ww lim
          = Inr (match_cap lim (qualifying_lines h [] [] (compileAll h exc cs ww) lim blocks))"
    using findLines_scan [of "[]" h exc cs ww blocks lim] by (simp add: no_inc)
  have q: "line_qualifies h [] [] excR lim p sel
       = (getTextLineByTextSelection h (block_textContent p) sel \<noteq> []
          \<and> list_all (\<lambda>regex. \<not> occurs regex
                (getTextLineByTextSelection h (block_textContent p) sel)) excR)"
    by (simp add: line_qualifies_def Let_def)
  have sub: "subMatchItems (line_item h [] lim p sel) = []"
    by (simp add: line_item_def Let_def empty)
  have none: "qualifying_lines h inc [] excR lim blocks = []" if "inc \<noteq> []" for excR
    using that
    by (induction blocks) (auto simp: qualifying_lines_def line_qualifies_def Let_def empty)
  have orig: "inc \<noteq> [] \<longrightarrow> compileAll h inc cs ww = [] \<longrightarrow>
        findLines h blocks inc exc cs ww lim = Inr []"
    unfolding findLines_cases by (auto simp: none match_cap_def)
  from empty only q sub orig show ?thesis by blast
qed

theorem exclude_only_search_witness:
  "map source (compileAll small_host [''x''] True False) = [''x'']
   \<and> findLines small_host [block 0 (''ab'' @ [CHR 0x0A] @ ''xc'')] [] [''x''] True False 0
       = Inr [\<lparr>start = 0, end' = 3, textContent = ''ab'', subMatchItems = []\<rparr>]
   \<and> match_cap 0 (qualifying_lines small_host [] [] (compileAll small_host [''x''] True False) 0
         [block 0 (''ab'' @ [CHR 0x0A] @ ''xc'')])
       = [\<lparr>start = 0, end' = 3, textContent = ''ab'', subMatchItems = []\<rparr>]
   \<and> compileAll raw_host [''*''] True False = []
   \<and> findLines raw_host [block 0 (''ab'' @ [CHR 0x0A] @ ''xc'')] [''*''] [''x''] True False 0
       = Inr []"
proof -
  have s: "map source (compileAll small_host [''x''] True False) = [''x'']"
    by code_simp
  then have ne: "compileAll small_host [''x''] True False \<noteq> []" by auto
  have v: "findLines small_host [block 0 (''ab'' @ [CHR 0x0A] @ ''xc'')] [] [''x''] True False 0
       = Inr [\<lparr>start = 0, end' = 3, textContent = ''ab'', subMatchItems = []\<rparr>]"
    by code_simp
  have "map source (compileAll raw_host [''*''] True False) = []"
    by code_simp
  then have c: "compileAll raw_host [''*''] True False = []" by simp
  from exclude_only_search [where h = small_host and exc = "[''x'']" and cs = True and ww = False
      and blocks = "[block 0 (''ab'' @ [CHR 0x0A] @ ''xc'')]" and lim = 0] ne v
  have a: "match_cap 0 (qualifying_lines small_host [] [] (compileAll small_host [''x''] True False) 0
         [block 0 (''ab'' @ [CHR 0x0A] @ ''xc'')])
       = [\<lparr>start = 0, end' = 3, textContent = ''ab'', subMatchItems = []\<rparr>]"
    by simp
  from exclude_only_search [where h = raw_host and inc = "[''*'']" and exc = "[''x'']"
      and cs = True and ww = False
      and blocks = "[block 0 (''ab'' @ [CHR 0x0A] @ ''xc'')]" and lim = 0] c
  have b: "findLines raw_host [block 0 (''ab'' @ [CHR 0x0A] @ ''xc'')] [''*''] [''x''] True False 0
       = Inr []"
    by simp
  from s v a c b show ?thesis by simp
qed

section \<open>The match cap\<close>

lemma find_while_length:
  "lim > 0 \<Longrightarrow> int (length items) < lim \<Longrightarrow>
     find_while regex s off lim match lp items = Next (regex', items') \<Longrightarrow>
     int (length items') \<le> lim"
proof (induction regex match lp items rule: find_while_induct [where s = s and off = off and lim = lim])
  case (None regex lp items)
  then show ?case by (simp add: find_while_None)
next
  case (Guard regex m lp items)
  then show ?case by (simp add: find_while_guard)
next
  case (Full regex m lp items)
  then show ?case by (auto simp: find_while_full)
next
  case (Step regex m lp items match' regex'')
  then show ?case by (auto simp: find_while_step)
qed

lemma find_while_Return:
  "find_while regex s off lim match lp items = Return r \<Longrightarrow> r = []"
proof (induction regex match lp items rule: find_while_induct [where s = s and off = off and lim = lim])
  case (None regex lp items)
  then show ?case by (simp add: find_while_None)
next
  case (Guard regex m lp items)
  then show ?case by (simp add: find_while_guard)
next
  case (Full regex m lp items)
  then show ?case by (simp add: find_while_full)
next
  case (Step regex m lp items match' regex')
  then show ?case by (simp add: find_while_step)
qed

lemma find_for_length:
  "lim > 0 \<Longrightarrow> int (length items) \<le> lim \<Longrightarrow>
     int (length (find_for regex lim blocks items)) \<le> lim"
proof (induction blocks arbitrary: regex items)
  case Nil
  then show ?case by simp
next
  case (Cons p blocks)
  show ?case
  proof (cases "int (length items) \<ge> lim")
    case True
    with Cons.prems show ?thesis by simp
  next
    case False
    obtain match regex1 where ex: "exec (regex\<lparr>lastIndex := 0\<rparr>) (block_textContent p) = (match, regex1)"
      by (cases "exec (regex\<lparr>lastIndex := 0\<rparr>) (block_textContent p)") auto
    show ?thesis
    proof (cases "find_while regex1 (block_textContent p) (block_offset p) lim match (- 1) items")
      case (Return r)
      then have "r = []" by (rule find_while_Return)
      with Return ex False Cons.prems show ?thesis by (simp add: Let_def)
    next
      case (Next st)
      obtain regex2 items2 where st: "st = (regex2, items2)" by (cases st) auto
      from Next st False Cons.prems have "int (length items2) \<le> lim"
        using find_while_length [of lim items regex1 "block_textContent p" "block_offset p" match "- 1" regex2 items2]
        by simp
      from Cons.IH [OF Cons.prems(1) this, of regex2] Next st ex False show ?thesis
        by (simp add: Let_def)
    qed
  qed
qed

lemma find_length_le:
  "lim > 0 \<Longrightarrow> find h blocks kw cs ww re lim = Inr ms \<Longrightarrow> int (length ms) \<le> lim"
  using find_for_length [of lim "[]"]
  by (auto simp: find_def split: if_splits option.splits)

lemma findLines_length_le:
  "lim > 0 \<Longrightarrow> findLines h blocks inc exc cs ww lim = Inr ls \<Longrightarrow> int (length ls) \<le> lim"
  unfolding findLines_cases by (auto simp: length_match_cap split: if_splits)

text \<open>
  Claim C4 says that a positive \<open>maxMatchLimit\<close> bounds the length of the result of
  \<open>find\<close>, \<open>findLines\<close> and \<open>findMultipleKeywords\<close>. For \<open>find\<close> and \<open>findLines\<close> it does
  (\<open>find_length_le\<close>, \<open>findLines_length_le\<close>). In \<open>findMultipleKeywords\<close> the \<open>break\<close>
  leaves the \<open>while\<close> loop only, and the \<open>for\<close> loop goes on to the next pattern without
  testing the cap: with the limit 1 and the patterns \<open>a\<close> and \<open>b\<close> the line \<open>ab\<close> gives two
  sub-matches.
\<close>

theorem findMultipleKeywords_exceeds_limit:
  "findMultipleKeywords ''ab'' (compileAll small_host [''a'', ''b''] True False) 0 1
     = [\<lparr>sub_offset = 0, sub_textContent = ''a''\<rparr>, \<lparr>sub_offset = 1, sub_textContent = ''b''\<rparr>]
   \<and> length (findMultipleKeywords ''ab'' (compileAll small_host [''a'', ''b''] True False) 0 1) = 2"
  by code_simp

section \<open>Order of the results\<close>

lemma ordered_matches_le: "ordered_matches lo hi M \<Longrightarrow> lo \<le> hi"
  by (induction M arbitrary: lo) force+











section \<open>The guard against a repeated match\<close>

lemma same_start_twice_D:
  assumes "same_start_twice regex s k"
  obtains m m' where "fst (advance regex s k) = Some m" "fst (advance regex s (Suc k)) = Some m'"
    "index m' = index m" "\<And>j. j < k \<Longrightarrow> fst (advance regex s j) \<noteq> None"
  using assms
  by (auto simp: same_start_twice_def list_all_iff split: option.splits)

lemma exec_advance: "exec (snd (advance regex s j)) s = (fst (advance regex s (Suc j)), snd (advance regex s (Suc j)))"
  by simp

lemma find_while_same_start:
  assumes "same_start_twice regex s k"
  shows "j \<le> k \<Longrightarrow> lim \<le> 0 \<or> int (length items) + int (k - j) + 1 < lim \<Longrightarrow>
     find_while (snd (advance regex s j)) s off lim (fst (advance regex s j)) lp items = Return []"
proof (induction "k - j" arbitrary: j lp items)
  case 0
  then have jk: "j = k" by simp
  from assms obtain m m' where m: "fst (advance regex s k) = Some m"
    "fst (advance regex s (Suc k)) = Some m'" "index m' = index m"
    by (rule same_start_twice_D)
  show ?case
  proof (cases "lp = int (index m)")
    case True
    with m jk show ?thesis by (simp add: find_while_guard)
  next
    case False
    have nf: "\<not> (lim > 0 \<and> int (length items) + 1 \<ge> lim)" using "0.prems"(2) jk by auto
    have "find_while (snd (advance regex s k)) s off lim (Some m) lp items
            = find_while (snd (advance regex s (Suc k))) s off lim (Some m') (int (index m))
                (items @ [match_item off m])"
      using find_while_step [OF False nf exec_advance [of regex s k]] m by simp
    also have "\<dots> = Return []" using m(3) find_while_guard [of _ s off lim m'] by simp
    finally show ?thesis using m jk by simp
  qed
next
  case (Suc d)
  then have jk: "j < k" by simp
  from assms jk obtain m where m: "fst (advance regex s j) = Some m"
    by (elim same_start_twice_D) auto
  show ?case
  proof (cases "lp = int (index m)")
    case True
    with m show ?thesis by (simp add: find_while_guard)
  next
    case False
    have nf: "\<not> (lim > 0 \<and> int (length items) + 1 \<ge> lim)" using Suc.prems(2) jk by auto
    have d: "d = k - Suc j" using Suc.hyps(2) by simp
    have c: "lim \<le> 0 \<or> int (length (items @ [match_item off m])) + int (k - Suc j) + 1 < lim"
      using Suc.prems(2) jk by auto
    have "find_while (snd (advance regex s j)) s off lim (Some m) lp items
            = find_while (snd (advance regex s (Suc j))) s off lim (fst (advance regex s (Suc j)))
                (int (index m)) (items @ [match_item off m])"
      using find_while_step [OF False nf exec_advance [of regex s j]] by simp
    also have "\<dots> = Return []" using Suc.hyps(1) [OF d _ c] jk by simp
    finally show ?thesis using m by simp
  qed
qed

lemma fmk_while_same_start:
  assumes "same_start_twice regex s k"
  shows "j \<le> k \<Longrightarrow> lim \<le> 0 \<or> int (length items) + int (k - j) + 1 < lim \<Longrightarrow>
     fmk_while (snd (advance regex s j)) s off lim (fst (advance regex s j)) lp items = Return []"
proof (induction "k - j" arbitrary: j lp items)
  case 0
  then have jk: "j = k" by simp
  from assms obtain m m' where m: "fst (advance regex s k) = Some m"
    "fst (advance regex s (Suc k)) = Some m'" "index m' = index m"
    by (rule same_start_twice_D)
  show ?case
  proof (cases "lp = int (index m)")
    case True
    with m jk show ?thesis by (simp add: fmk_while_guard)
  next
    case False
    have nf: "\<not> (lim > 0 \<and> int (length items) + 1 \<ge> lim)" using "0.prems"(2) jk by auto
    have "fmk_while (snd (advance regex s k)) s off lim (Some m) lp items
            = fmk_while (snd (advance regex s (Suc k))) s off lim (Some m') (int (index m))
                (items @ [sub_match_item off m])"
      using fmk_while_step [OF False nf exec_advance [of regex s k]] m by simp
    also have "\<dots> = Return []" using m(3) fmk_while_guard [of _ s off lim m'] by simp
    finally show ?thesis using m jk by simp
  qed
next
  case (Suc d)
  then have jk: "j < k" by simp
  from assms jk obtain m where m: "fst (advance regex s j) = Some m"
    by (elim same_start_twice_D) auto
  show ?case
  proof (cases "lp = int (index m)")
    case True
    with m show ?thesis by (simp add: fmk_while_guard)
  next
    case False
    have nf: "\<not> (lim > 0 \<and> int (length items) + 1 \<ge> lim)" using Suc.prems(2) jk by auto
    have d: "d = k - Suc j" using Suc.hyps(2) by simp
    have c: "lim \<le> 0 \<or> int (length (items @ [sub_match_item off m])) + int (k - Suc j) + 1 < lim"
      using Suc.prems(2) jk by auto
    have "fmk_while (snd (advance regex s j)) s off lim (Some m) lp items
            = fmk_while (snd (advance regex s (Suc j))) s off lim (fst (advance regex s (Suc j)))
                (int (index m)) (items @ [sub_match_item off m])"
      using fmk_while_step [OF False nf exec_advance [of regex s j]] by simp
    also have "\<dots> = Return []" using Suc.hyps(1) [OF d _ c] jk by simp
    finally show ?thesis using m by simp
  qed
qed

lemma advance_reset:
  "regex'\<lparr>lastIndex := 0\<rparr> = regex\<lparr>lastIndex := 0\<rparr> \<Longrightarrow> advance regex' s k = advance regex s k"
  by (induction k) simp_all

lemma same_start_twice_reset:
  assumes "regex'\<lparr>lastIndex := 0\<rparr> = regex\<lparr>lastIndex := 0\<rparr>"
  shows "same_start_twice regex' s k = same_start_twice regex s k"
proof -
  have "advance regex' s j = advance regex s j" for j
    using assms by (rule advance_reset)
  then have "advance regex' s = advance regex s" by (rule ext)
  then show ?thesis unfolding same_start_twice_def by (rule arg_cong)
qed

lemma exec_reset: "exec regex s = (m, regex') \<Longrightarrow> regex'\<lparr>lastIndex := 0\<rparr> = regex\<lparr>lastIndex := 0\<rparr>"
  by (cases m) (auto dest: exec_None exec_Some)

lemma find_while_reset:
  "find_while regex s off lim match lp items = Next (regex', items') \<Longrightarrow>
     regex'\<lparr>lastIndex := 0\<rparr> = regex\<lparr>lastIndex := 0\<rparr>"
proof (induction regex match lp items rule: find_while_induct [where s = s and off = off and lim = lim])
  case (None regex lp items)
  then show ?case by (simp add: find_while_None)
next
  case (Guard regex m lp items)
  then show ?case by (simp add: find_while_guard)
next
  case (Full regex m lp items)
  then show ?case by (simp add: find_while_full)
next
  case (Step regex m lp items match' regex'')
  from Step have "regex'\<lparr>lastIndex := 0\<rparr> = regex''\<lparr>lastIndex := 0\<rparr>"
    by (simp add: find_while_step)
  with exec_reset [OF Step.hyps(3)] show ?case by simp
qed

lemma find_for_head_same_start:
  assumes "same_start_twice regex (block_textContent p) k"
    and "lim \<le> 0 \<or> int (length items) + int k + 1 < lim"
  shows "find_for regex lim (p # rest) items = []"
proof -
  let ?s = "block_textContent p"
  obtain match regex1 where ex: "exec (regex\<lparr>lastIndex := 0\<rparr>) ?s = (match, regex1)"
    by (cases "exec (regex\<lparr>lastIndex := 0\<rparr>) ?s") auto
  then have a: "advance regex ?s 0 = (match, regex1)" by simp
  have "find_while regex1 ?s (block_offset p) lim match (- 1) items = Return []"
    using find_while_same_start [OF assms(1), of 0 lim items "block_offset p" "- 1"] assms(2)
    unfolding a by simp
  moreover have "\<not> (lim > 0 \<and> int (length items) \<ge> lim)" using assms(2) by auto
  ultimately show ?thesis using ex by (auto simp: Let_def)
qed

lemma find_for_any_same_start:
  "lim \<le> 0 \<Longrightarrow> p \<in> set blocks \<Longrightarrow> same_start_twice regex (block_textContent p) k \<Longrightarrow>
     regex'\<lparr>lastIndex := 0\<rparr> = regex\<lparr>lastIndex := 0\<rparr> \<Longrightarrow>
     find_for regex' lim blocks items = []"
proof (induction blocks arbitrary: regex' items)
  case Nil
  then show ?case by simp
next
  case (Cons q blocks)
  show ?case
  proof (cases "q = p")
    case True
    from Cons.prems(3) have "same_start_twice regex' (block_textContent p) k"
      unfolding same_start_twice_reset [OF Cons.prems(4)] .
    from find_for_head_same_start [OF this, of lim items blocks] Cons.prems(1) True
    show ?thesis by simp
  next
    case False
    with Cons.prems(2) have p: "p \<in> set blocks" by simp
    let ?s = "block_textContent q"
    obtain match regex1 where ex: "exec (regex'\<lparr>lastIndex := 0\<rparr>) ?s = (match, regex1)"
      by (cases "exec (regex'\<lparr>lastIndex := 0\<rparr>) ?s") auto
    from exec_reset [OF ex] Cons.prems(4)
    have r1: "regex1\<lparr>lastIndex := 0\<rparr> = regex\<lparr>lastIndex := 0\<rparr>" by simp
    show ?thesis
    proof (cases "find_while regex1 ?s (block_offset q) lim match (- 1) items")
      case (Return r)
      then have "r = []" by (rule find_while_Return)
      with Return ex Cons.prems(1) show ?thesis by (simp add: Let_def)
    next
      case (Next st)
      obtain regex2 items2 where st: "st = (regex2, items2)" by (cases st) auto
      from find_while_reset [of regex1 ?s "block_offset q" lim match "- 1" items regex2 items2]
        Next st r1
      have "regex2\<lparr>lastIndex := 0\<rparr> = regex\<lparr>lastIndex := 0\<rparr>" by simp
      from Cons.IH [OF Cons.prems(1) p Cons.prems(3) this, of items2] Next st ex Cons.prems(1)
      show ?thesis by (simp add: Let_def)
    qed
  qed
qed

lemma fmk_for_head_same_start:
  assumes "same_start_twice regex s k"
    and "lim \<le> 0 \<or> int (length items) + int k + 1 < lim"
  shows "fmk_for (regex # rest) s off lim items = Return []"
proof -
  obtain match regex1 where ex: "exec (regex\<lparr>lastIndex := 0\<rparr>) s = (match, regex1)"
    by (cases "exec (regex\<lparr>lastIndex := 0\<rparr>) s") auto
  then have a: "advance regex s 0 = (match, regex1)" by simp
  have "fmk_while regex1 s off lim match (- 1) items = Return []"
    using fmk_while_same_start [OF assms(1), of 0 lim items off "- 1"] assms(2)
    unfolding a by simp
  then show ?thesis using ex by simp
qed

lemma fmk_for_any_same_start:
  "lim \<le> 0 \<Longrightarrow> regex \<in> set regs \<Longrightarrow> same_start_twice regex s k \<Longrightarrow>
     fmk_for regs s off lim items = Return []"
proof (induction regs arbitrary: items)
  case Nil
  then show ?case by simp
next
  case (Cons q regs)
  show ?case
  proof (cases "q = regex")
    case True
    from fmk_for_head_same_start [OF Cons.prems(3), of lim items regs off] Cons.prems(1) True
    show ?thesis by simp
  next
    case False
    with Cons.prems(2) have p: "regex \<in> set regs" by simp
    obtain match regex1 where ex: "exec (q\<lparr>lastIndex := 0\<rparr>) s = (match, regex1)"
      by (cases "exec (q\<lparr>lastIndex := 0\<rparr>) s") auto
    show ?thesis
    proof (cases "fmk_while regex1 s off lim match (- 1) items")
      case (Return r)
      then have "r = []" by (rule fmk_while_Return)
      with Return ex show ?thesis by simp
    next
      case (Next st)
      obtain regex2 items2 where st: "st = (regex2, items2)" by (cases st) auto
      from Cons.IH [OF Cons.prems(1) p Cons.prems(3), of items2] Next st ex
      show ?thesis by simp
    qed
  qed
qed

text \<open>
  Claim C3: the scan loops of \<open>find\<close> and \<open>findMultipleKeywords\<close> terminate from every
  state (the other loops run over finite lists). When two consecutive advances of a
  pattern over a text start at the same index, and the match cap does not stop the scan
  before the second of them, the call returns the empty sequence: the matches collected
  so far, also those of earlier blocks or patterns, are given up. Without a cap this
  holds for whichever block of \<open>find\<close>, and whichever pattern of
  \<open>findMultipleKeywords\<close>, the repetition occurs in.
\<close>

theorem scans_terminate_and_guard:
  "find_while_dom (regex, s, off, lim, match, lp, items)
   \<and> fmk_while_dom (regex, s, off, lim, match, lp, subs)
   \<and> (same_start_twice regex (block_textContent p) k \<longrightarrow>
        lim \<le> 0 \<or> int (length items) + int k + 1 < lim \<longrightarrow>
        find_for regex lim (p # rest) items = [])
   \<and> (kw \<noteq> [] \<longrightarrow> buildFindTextRegex h kw cs ww re = Some regex \<longrightarrow> lim \<le> 0 \<longrightarrow>
        p \<in> set blocks \<longrightarrow> same_start_twice regex (block_textContent p) k \<longrightarrow>
        find h blocks kw cs ww re lim = Inr [])
   \<and> (same_start_twice regex s k \<longrightarrow>
        lim \<le> 0 \<or> int (length subs) + int k + 1 < lim \<longrightarrow>
        fmk_for (regex # regs) s off lim subs = Return [])
   \<and> (lim \<le> 0 \<longrightarrow> regex \<in> set regs \<longrightarrow> same_start_twice regex s k \<longrightarrow>
        findMultipleKeywords s regs off lim = [])"
proof -
  have d1: "find_while_dom (regex, s, off, lim, match, lp, items)"
    using find_while_terminates by blast
  have d2: "fmk_while_dom (regex, s, off, lim, match, lp, subs)"
    using fmk_while_terminates by blast
  have f: "find h blocks kw cs ww re lim = Inr []"
    if "kw \<noteq> []" "buildFindTextRegex h kw cs ww re = Some regex" "lim \<le> 0" "p \<in> set blocks"
      "same_start_twice regex (block_textContent p) k"
    using that find_for_any_same_start [OF that(3,4,5) refl, of "[]"]
    by (simp add: find_def)
  have m: "findMultipleKeywords s regs off lim = []"
    if "lim \<le> 0" "regex \<in> set regs" "same_start_twice regex s k"
    using fmk_for_any_same_start [OF that, of off "[]"]
    by (simp add: findMultipleKeywords_def)
  from d1 d2 f m find_for_head_same_start [of regex p k lim items rest]
    fmk_for_head_same_start [of regex s k lim subs regs off]
  show ?thesis by blast
qed

theorem scans_terminate_and_guard_witness:
  "buildFindTextRegex small_host (word_boundary @ ''.*'') True False True = Some boundary_any
   \<and> same_start_twice boundary_any ''cd'' 1
   \<and> find small_host [block 0 ''ab.''] (word_boundary @ ''.*'') True False True 0
       = Inr [\<lparr>start = 0, end' = 3, textContent = ''ab.''\<rparr>]
   \<and> find small_host [block 0 ''ab.'', block 3 ''cd''] (word_boundary @ ''.*'') True False True 0
       = Inr []
   \<and> find_for boundary_any 0 [block 3 ''cd'']
        [\<lparr>start = 0, end' = 3, textContent = ''ab.''\<rparr>] = []
   \<and> find_for boundary_any 4 [block 3 ''cd'']
        [\<lparr>start = 0, end' = 3, textContent = ''ab.''\<rparr>] = []
   \<and> fmk_for [boundary_any] ''cd'' 0 0 [] = Return []
   \<and> findMultipleKeywords ''cd'' [boundary_any] 0 0 = []"
proof -
  have b: "buildFindTextRegex small_host (word_boundary @ ''.*'') True False True = Some boundary_any"
    by (simp add: buildFindTextRegex_def newRegExp_def small_host_def small_compile_def
        parse_pattern_def backslash_def special_chars_def word_boundary_def boundary_any_def
        escaped_atom_def)
  have t: "same_start_twice boundary_any ''cd'' 1"
    by code_simp
  have v: "find small_host [block 0 ''ab.''] (word_boundary @ ''.*'') True False True 0
       = Inr [\<lparr>start = 0, end' = 3, textContent = ''ab.''\<rparr>]"
    by code_simp
  have kw: "word_boundary @ ''.*'' \<noteq> []" by simp
  have t': "same_start_twice boundary_any (block_textContent (block 3 ''cd'')) 1"
    using t by (simp add: block_def)
  from scans_terminate_and_guard [where regex = boundary_any and p = "block 3 ''cd''" and k = 1
      and lim = 0 and items = "[\<lparr>start = 0, end' = 3, textContent = ''ab.''\<rparr>]" and rest = "[]"
      and kw = "word_boundary @ ''.*''" and h = small_host and cs = True and ww = False
      and re = True and blocks = "[block 0 ''ab.'', block 3 ''cd'']"
      and s = "''cd''" and subs = "[]" and regs = "[]" and off = 0] b t t' kw
  have g: "find small_host [block 0 ''ab.'', block 3 ''cd''] (word_boundary @ ''.*'') True False True 0
       = Inr []"
    "find_for boundary_any 0 [block 3 ''cd'']
        [\<lparr>start = 0, end' = 3, textContent = ''ab.''\<rparr>] = []"
    "fmk_for [boundary_any] ''cd'' 0 0 [] = Return []"
    by simp_all
  from scans_terminate_and_guard [where regex = boundary_any and p = "block 3 ''cd''" and k = 1
      and lim = 4 and items = "[\<lparr>start = 0, end' = 3, textContent = ''ab.''\<rparr>]"
      and rest = "[]"] t'
  have c: "find_for boundary_any 4 [block 3 ''cd'']
        [\<lparr>start = 0, end' = 3, textContent = ''ab.''\<rparr>] = []"
    by simp
  from scans_terminate_and_guard [where regex = boundary_any and k = 1 and lim = 0
      and s = "''cd''" and regs = "[boundary_any]" and off = 0] t
  have m: "findMultipleKeywords ''cd'' [boundary_any] 0 0 = []"
    by simp
  from b t v g c m show ?thesis by simp
qed

section \<open>Claims on the replacer\<close>

lemma replace_for_position:
  "fst (snd (replace_for T R c M cur pos buf)) = pos + sum_list (map (cursor_shift R c) M)"
  by (induction M arbitrary: cur pos buf) (auto simp: Let_def cursor_shift_def)

lemma length_substring:
  "0 \<le> a \<Longrightarrow> a \<le> b \<Longrightarrow> b \<le> int (length s) \<Longrightarrow> length (substring s a b) = nat (b - a)"
  by (auto simp: substring_def Let_def min_def max_def)

lemma substring_all: "substring s 0 (int (length s)) = s"
  by (simp add: substring_def Let_def)

text \<open>
  The invariant of the loop: the length of the buffer minus \<open>currentOffset\<close> grows at each
  match by the length of the replacement minus the length of the match.
\<close>

lemma replace_for_length:
  assumes "0 \<le> cur" "ordered_matches cur (int (length T)) M"
    and "replace_for T R c M cur pos buf = (cur', pos', buf')"
  shows "cur' \<le> int (length T) \<and> 0 \<le> cur'
         \<and> int (length (concat buf')) - cur'
             = int (length (concat buf)) - cur
               + (\<Sum>m\<leftarrow>M. int (length R) - (end' m - start m))"
  using assms
proof (induction M arbitrary: cur pos buf)
  case Nil
  then show ?case by simp
next
  case (Cons m M)
  let ?buf1 = "if start m \<noteq> cur then buf @ [substring T cur (start m)] else buf"
  let ?pos1 = "if start m < c then pos + (int (length R) - (end' m - start m)) else pos"
  from Cons.prems have ord: "cur \<le> start m" "start m \<le> end' m"
    "ordered_matches (end' m) (int (length T)) M" by auto
  have endT: "end' m \<le> int (length T)" using ordered_matches_le [OF ord(3)] .
  have step: "replace_for T R c M (end' m) ?pos1 (?buf1 @ [R]) = (cur', pos', buf')"
    using Cons.prems(3) by (auto simp: Let_def split: if_splits)
  have "0 \<le> end' m" using Cons.prems(1) ord by linarith
  from Cons.IH [OF this ord(3) step]
  have IH: "cur' \<le> int (length T)" "0 \<le> cur'"
    "int (length (concat buf')) - cur'
       = int (length (concat (?buf1 @ [R]))) - end' m
         + (\<Sum>m\<leftarrow>M. int (length R) - (end' m - start m))" by auto
  have "int (length (concat ?buf1)) = int (length (concat buf)) + (start m - cur)"
    using length_substring [of cur "start m" T] Cons.prems(1) ord endT by auto
  with IH show ?case by simp
qed

lemma sum_list_replace_lengths:
  "(\<Sum>m\<leftarrow>M. int (length R) - (end' m - start m))
     = int (length R) * int (length M) - (\<Sum>m\<leftarrow>M. end' m - start m)"
  by (induction M) (simp_all add: algebra_simps)

lemma replace_length_aux:
  assumes "ordered_matches 0 (int (length T)) M"
  shows "int (length (result_textContent (replace T R M c)))
           = int (length T) - (\<Sum>m\<leftarrow>M. end' m - start m) + int (length R) * int (length M)"
proof -
  obtain cur pos buf where rf: "replace_for T R c M 0 c [] = (cur, pos, buf)"
    by (cases "replace_for T R c M 0 c []") auto
  from replace_for_length [OF _ assms rf]
  have b: "cur \<le> int (length T)" "0 \<le> cur"
    and len: "int (length (concat buf)) - cur = (\<Sum>m\<leftarrow>M. int (length R) - (end' m - start m))"
    by auto
  have tail: "int (length (substring T cur (int (length T)))) = int (length T) - cur"
    using length_substring [of cur "int (length T)" T] b by simp
  have "int (length (result_textContent (replace T R M c)))
          = int (length (concat buf)) + (int (length T) - cur)"
    using rf tail by (simp add: replace_def Let_def)
  with len show ?thesis by (simp add: sum_list_replace_lengths)
qed

text \<open>
  The cursor position against the new text: for ordered match items and a cursor within
  the text, the new cursor position never exceeds the length of the new text, and it is
  not negative as long as the cursor does not stand strictly inside a match.
\<close>

lemma replace_cursorPosition:
  "cursorPosition (replace T R M c) = c + sum_list (map (cursor_shift R c) M)"
  using replace_for_position [of T R c M 0 c "[]"]
  by (cases "replace_for T R c M 0 c []") (simp add: replace_def Let_def)

lemma after_cursor_sum:
  "ordered_matches lo hi M \<Longrightarrow> c \<le> hi \<Longrightarrow>
     - (hi - max lo c)
       \<le> (\<Sum>m\<leftarrow>M. (int (length R) - (end' m - start m)) - cursor_shift R c m)"
proof (induction M arbitrary: lo)
  case Nil
  then show ?case by simp
next
  case (Cons m M)
  from Cons.prems have o: "lo \<le> start m" "start m \<le> end' m"
    "ordered_matches (end' m) hi M" by auto
  from Cons.IH [OF o(3) Cons.prems(2)] o show ?case
    by (auto simp: cursor_shift_def max_def split: if_splits)
qed

lemma before_cursor_sum:
  "ordered_matches lo hi M \<Longrightarrow> \<forall>m\<in>set M. \<not> (start m < c \<and> c < end' m) \<Longrightarrow>
     - max 0 (c - lo) \<le> (\<Sum>m\<leftarrow>M. cursor_shift R c m)"
proof (induction M arbitrary: lo)
  case Nil
  then show ?case by simp
next
  case (Cons m M)
  from Cons.prems have o: "lo \<le> start m" "start m \<le> end' m"
    "ordered_matches (end' m) hi M" "\<not> (start m < c \<and> c < end' m)"
    "\<forall>m\<in>set M. \<not> (start m < c \<and> c < end' m)" by auto
  from Cons.IH [OF o(3) o(5)] o(1,2,4) show ?case
    by (auto simp: cursor_shift_def max_def split: if_splits)
qed

lemma replace_cursor_bounds:
  assumes "ordered_matches 0 (int (length T)) M" "0 \<le> c" "c \<le> int (length T)"
  shows "cursorPosition (replace T R M c) \<le> int (length (result_textContent (replace T R M c)))"
    and "\<forall>m\<in>set M. \<not> (start m < c \<and> c < end' m) \<Longrightarrow> 0 \<le> cursorPosition (replace T R M c)"
proof -
  let ?n = "int (length T)"
  have len: "int (length (result_textContent (replace T R M c)))
      = ?n + (\<Sum>m\<leftarrow>M. int (length R) - (end' m - start m))"
    using replace_length_aux [OF assms(1), of R c] by (simp add: sum_list_replace_lengths)
  have "(\<Sum>m\<leftarrow>M. (int (length R) - (end' m - start m)) - cursor_shift R c m)
      = (\<Sum>m\<leftarrow>M. int (length R) - (end' m - start m)) - (\<Sum>m\<leftarrow>M. cursor_shift R c m)"
    by (induction M) simp_all
  with after_cursor_sum [OF assms(1,3), of R] assms(2)
  show "cursorPosition (replace T R M c) \<le> int (length (result_textContent (replace T R M c)))"
    by (simp add: len replace_cursorPosition)
  show "0 \<le> cursorPosition (replace T R M c)"
    if "\<forall>m\<in>set M. \<not> (start m < c \<and> c < end' m)"
    using before_cursor_sum [OF assms(1) that, of R] assms(2)
    by (simp add: replace_cursorPosition)
qed

text \<open>
  Claim C2 says that the cursor position of a Replace Result lies between 0 and the
  length of the new text. The upper bound holds (\<open>replace_cursor_bounds\<close>). The lower
  one fails when the cursor stands inside a match: the code adds the growth of every
  match that starts before the cursor, also of the match the cursor stands in. With
  the cursor at 3 inside \<open>hello\<close>, replaced by the empty string, the text becomes
  empty and the cursor position \<open>- 2\<close>.
\<close>

theorem replace_cursor_inside_match:
  "replace ''hello'' [] [\<lparr>start = 0, end' = 5, textContent = ''hello''\<rparr>] 3
     = \<lparr>result_textContent = [], cursorPosition = - 2\<rparr>"
  by code_simp

text \<open>
  Claim C6: for match items that are sorted, non-overlapping and within the text, the
  new text is as long as the old one, minus the lengths of the matches, plus the length
  of the replacement once per match; with no match item, \<open>replace\<close> gives the text and
  the cursor position back.
\<close>

theorem replace_text_length:
  "(ordered_matches 0 (int (length T)) M \<longrightarrow>
      int (length (result_textContent (replace T R M c)))
        = int (length T) - (\<Sum>m\<leftarrow>M. end' m - start m) + int (length R) * int (length M))
   \<and> replace T R [] c = \<lparr>result_textContent = T, cursorPosition = c\<rparr>"
  using replace_length_aux [of T M R c]
  by (simp add: replace_def substring_all)

theorem replace_text_length_witness:
  "ordered_matches 0 (int (length ''say hello to hello''))
      [\<lparr>start = 4, end' = 9, textContent = ''hello''\<rparr>,
       \<lparr>start = 13, end' = 18, textContent = ''hello''\<rparr>]
   \<and> result_textContent (replace ''say hello to hello'' ''bye''
        [\<lparr>start = 4, end' = 9, textContent = ''hello''\<rparr>,
         \<lparr>start = 13, end' = 18, textContent = ''hello''\<rparr>] 7)
       = ''say bye to bye''
   \<and> int (length (result_textContent (replace ''say hello to hello'' ''bye''
        [\<lparr>start = 4, end' = 9, textContent = ''hello''\<rparr>,
         \<lparr>start = 13, end' = 18, textContent = ''hello''\<rparr>] 7)))
       = 18 - 10 + 3 * 2"
proof -
  have h: "ordered_matches 0 (int (length ''say hello to hello''))
      [\<lparr>start = 4, end' = 9, textContent = ''hello''\<rparr>,
       \<lparr>start = 13, end' = 18, textContent = ''hello''\<rparr>]"
    by simp
  have v: "result_textContent (replace ''say hello to hello'' ''bye''
        [\<lparr>start = 4, end' = 9, textContent = ''hello''\<rparr>,
         \<lparr>start = 13, end' = 18, textContent = ''hello''\<rparr>] 7)
       = ''say bye to bye''"
    by code_simp
  from replace_text_length [of "''say hello to hello''"
      "[\<lparr>start = 4, end' = 9, textContent = ''hello''\<rparr>,
        \<lparr>start = 13, end' = 18, textContent = ''hello''\<rparr>]"
      "''bye''" 7] h v
  show ?thesis by simp
qed

text \<open>
  Claim C7: the cursor position returned by \<open>replace\<close> is the original one plus, for each
  match that starts strictly before it, the length of the replacement minus the length
  of the match; matches that start at or after it add nothing. One match of length 3
  before the cursor and a replacement of length 5 move the cursor by 2.
\<close>

theorem replace_cursor_adjustment:
  "cursorPosition (replace T R M c) = c + sum_list (map (cursor_shift R c) M)
   \<and> (start m < c \<longrightarrow> end' m - start m = 3 \<longrightarrow> length R = 5 \<longrightarrow>
        cursorPosition (replace T R [m] c) = c + 2)
   \<and> ((\<forall>m\<in>set M. c \<le> start m) \<longrightarrow> cursorPosition (replace T R M c) = c)"
proof -
  have eq: "cursorPosition (replace T R M c) = c + sum_list (map (cursor_shift R c) M)" for M
    by (rule replace_cursorPosition)
  have "(\<forall>m\<in>set M. c \<le> start m) \<longrightarrow> sum_list (map (cursor_shift R c) M) = 0"
    by (induction M) (auto simp: cursor_shift_def)
  with eq [of M] eq [of "[m]"] show ?thesis
    by (auto simp: cursor_shift_def)
qed

theorem replace_cursor_adjustment_witness:
  "cursorPosition (replace ''say hel now'' ''HELLO''
      [\<lparr>start = 4, end' = 7, textContent = ''hel''\<rparr>] 9) = 9 + 2
   \<and> cursorPosition (replace ''say hel now'' ''HELLO''
      [\<lparr>start = 4, end' = 7, textContent = ''hel''\<rparr>] 2) = 2"
  using replace_cursor_adjustment [of "''say hel now''" "''HELLO''"
      "[\<lparr>start = 4, end' = 7, textContent = ''hel''\<rparr>]" 9
      "\<lparr>start = 4, end' = 7, textContent = ''hel''\<rparr>"]
    replace_cursor_adjustment [of "''say hel now''" "''HELLO''"
      "[\<lparr>start = 4, end' = 7, textContent = ''hel''\<rparr>]" 2
      "\<lparr>start = 4, end' = 7, textContent = ''hel''\<rparr>"]
  by simp

end
